theory Spec2Isabelle
  imports Main "HOL-Library.Sublist"
begin

section \<open>The build-session client of \<open>frontend/app/page.tsx\<close>\<close>

text \<open>
  The component \<open>AIWebsiteBuilder\<close> keeps its state in React hooks
  (\<open>isBuilding\<close>, \<open>files\<close>, \<open>selectedFile\<close>, \<open>isLive\<close>, \<open>aiResponse\<close>, the
  \<open>messages\<close> and \<open>input\<close> of \<open>useChat\<close>) and in the reference \<open>websocketRef\<close>.
  Every handler is modelled as a function from the state before the handler runs to the
  state after it. Strings are lists of 8-bit characters; \<open>Date.now()\<close> is an input of
  the handler that calls it, one reading for each place of the source that calls it.
\<close>

subsection \<open>Strings: \<open>trim\<close>, \<open>toString\<close>, the URL pattern, \<open>split\<close>\<close>

text \<open>The characters that \<open>String.prototype.trim\<close> removes and that \<open>\s\<close> matches,
  among the first 256 code points: TAB, LF, VT, FF, CR, SPACE and NBSP.\<close>

definition isSpace :: "char \<Rightarrow> bool" where
  "isSpace c = (c \<in> set [CHR 0x09, CHR 0x0A, CHR 0x0B, CHR 0x0C, CHR 0x0D, CHR 0x20, CHR 0xA0])"

definition trim :: "string \<Rightarrow> string" where
  "trim s = rev (dropWhile isSpace (rev (dropWhile isSpace s)))"

text \<open>\<open>Date.now().toString()\<close>: the decimal digits of a natural number.\<close>

definition digit :: "nat \<Rightarrow> char" where
  "digit d = char_of (48 + d)"

fun toString :: "nat \<Rightarrow> string" where
  "toString n = (if n < 10 then [digit n] else toString (n div 10) @ [digit (n mod 10)])"

declare toString.simps [simp del]

text \<open>The pattern \<open>/(https?:\/\/[^\s]+)/\<close> of \<open>handleInitialSubmit\<close>. \<open>stripPrefix p s\<close>
  is what follows \<open>p\<close> in \<open>s\<close> when \<open>s\<close> begins with \<open>p\<close>. \<open>matchAt s\<close> is
  the match that starts at the first character of \<open>s\<close>: the scheme, then the longest
  run of characters that are not white space, which must not be empty.
  \<open>urlMatch s\<close> is \<open>s.match(urlRegex)\<close>, the match at the leftmost position that has
  one (\<open>foundUrl[0]\<close>), or \<open>None\<close> for \<open>null\<close>.\<close>

fun stripPrefix :: "string \<Rightarrow> string \<Rightarrow> string option" where
  "stripPrefix [] s = Some s"
| "stripPrefix (p # ps) [] = None"
| "stripPrefix (p # ps) (c # cs) = (if p = c then stripPrefix ps cs else None)"

definition matchAt :: "string \<Rightarrow> string option" where
  "matchAt s =
     (let scheme = (case stripPrefix ''https://'' s of
                      Some r \<Rightarrow> Some (''https://'', r)
                    | None \<Rightarrow>
                        (case stripPrefix ''http://'' s of
                           Some r \<Rightarrow> Some (''http://'', r)
                         | None \<Rightarrow> None))
      in case scheme of
           None \<Rightarrow> None
         | Some (p, r) \<Rightarrow>
             (let body = takeWhile (\<lambda>c. \<not> isSpace c) r
              in if body = [] then None else Some (p @ body)))"

fun urlMatch :: "string \<Rightarrow> string option" where
  "urlMatch [] = None"
| "urlMatch (c # cs) =
     (case matchAt (c # cs) of Some m \<Rightarrow> Some m | None \<Rightarrow> urlMatch cs)"

text \<open>\<open>path.split("/")\<close>: never empty; an empty string gives one empty part.\<close>

fun split :: "string \<Rightarrow> string list" where
  "split [] = [[]]"
| "split (c # cs) =
     (if c = CHR ''/'' then [] # split cs
      else (case split cs of [] \<Rightarrow> [[c]] | w # ws \<Rightarrow> (c # w) # ws))"

subsection \<open>Data\<close>

datatype role = User | Assistant

text \<open>A \<open>Message\<close> of the chat: \<open>{ id, role, content }\<close>.\<close>

datatype Message = Message (m_id: string) (m_role: role) (m_content: string)

text \<open>\<open>type FileNode = { path: string, content: string, oldContent?: string }\<close>\<close>

record FileNode =
  path :: string
  content :: string
  oldContent :: "string option"

text \<open>A JavaScript \<open>Map<string, FileNode>\<close> keeps its keys in the order of their first
  insertion; \<open>set\<close> on a key that is present replaces the value where it stands.\<close>

type_synonym FileMap = "(string \<times> FileNode) list"

fun Map_set :: "string \<Rightarrow> FileNode \<Rightarrow> FileMap \<Rightarrow> FileMap" where
  "Map_set k v [] = [(k, v)]"
| "Map_set k v ((k', v') # m) = (if k' = k then (k, v) # m else (k', v') # Map_set k v m)"

fun Map_get :: "FileMap \<Rightarrow> string \<Rightarrow> FileNode option" where
  "Map_get [] k = None"
| "Map_get ((k', v') # m) k = (if k' = k then Some v' else Map_get m k)"

definition Map_keys :: "FileMap \<Rightarrow> string list" where
  "Map_keys m = map fst m"

text \<open>The frames sent to the backend: \<open>JSON.stringify({ url })\<close> and
  \<open>JSON.stringify({ type: "modification", prompt })\<close>.\<close>

datatype outFrame = Start string | Modify string

datatype readyState = CONNECTING | OPEN | CLOSING | CLOSED

text \<open>
  \<open>handleClone\<close> installs \<open>onopen\<close>, \<open>onmessage\<close>, \<open>onerror\<close> and \<open>onclose\<close> on the socket
  it creates. They are closures of that call: besides the parameter \<open>url\<close> they read the
  variables \<open>aiResponse\<close> and \<open>selectedFile\<close> of the render in which \<open>handleClone\<close>
  ran. Those are \<open>const\<close> bindings of one call of the component function, so the handlers
  see the values of that render for as long as the socket lives; no later render installs
  new handlers. What the handlers pass to a setter as a function, \<open>(prev) => ...\<close>,
  receives the current state.
\<close>

record closure =
  c_url :: string
  c_aiResponse :: string
  c_selectedFile :: string

record WebSocket =
  readyState :: readyState
  sent :: "outFrame list"
  handlers :: closure

text \<open>The state of the component. \<open>sockets\<close> holds every \<open>WebSocket\<close> object created so
  far; \<open>websocketRef\<close> is \<open>websocketRef.current\<close>, \<open>None\<close> for \<open>null\<close>, else the index of
  the object it refers to.\<close>

record state =
  isBuilding :: bool
  files :: FileMap
  selectedFile :: string
  isLive :: bool
  aiResponse :: string
  messages :: "Message list"
  input :: string
  websocketRef :: "nat option"
  sockets :: "WebSocket list"

definition initial :: state where
  "initial = \<lparr> isBuilding = False, files = [], selectedFile = [], isLive = False,
               aiResponse = [], messages = [], input = [], websocketRef = None,
               sockets = [] \<rparr>"

text \<open>An inbound frame. \<open>JSON.parse(event.data)\<close> throws on text that is not JSON
  (\<open>Unparsable\<close>); otherwise the handler reads \<open>event\<close> and \<open>data\<close> of the parsed object,
  and of \<open>data\<close> the fields below. Each branch reads only the fields of its own event
  kind; \<open>old_content\<close> is optional on the wire.\<close>

record data =
  d_message :: string
  d_token :: string
  d_path :: string
  d_content :: string
  d_old_content :: "string option"
  d_status :: string

datatype frame = Unparsable | Parsed string data

datatype error = SyntaxError | TypeError

subsection \<open>The handlers\<close>

text \<open>\<open>WebSocket.close()\<close> starts the closing handshake unless the socket is closed
  already; \<open>WebSocket.send\<close> queues a frame.\<close>

definition ws_close :: "WebSocket \<Rightarrow> WebSocket" where
  "ws_close ws = (if readyState ws = CLOSED then ws else ws\<lparr>readyState := CLOSING\<rparr>)"

definition ws_send :: "outFrame \<Rightarrow> WebSocket \<Rightarrow> WebSocket" where
  "ws_send f ws = ws\<lparr>sent := sent ws @ [f]\<rparr>"

definition handleReset :: "state \<Rightarrow> state" where
  "handleReset st =
     (let st1 = (case websocketRef st of
                   Some i \<Rightarrow> st\<lparr>sockets := (sockets st)[i := ws_close (sockets st ! i)],
                                websocketRef := None\<rparr>
                 | None \<Rightarrow> st)
      in st1\<lparr>isBuilding := False, files := [], selectedFile := [], isLive := False,
             aiResponse := [], messages := []\<rparr>)"

definition handleClone :: "string \<Rightarrow> state \<Rightarrow> state" where
  "handleClone url st =
     st\<lparr>isBuilding := True,
        sockets := sockets st @
          [\<lparr>readyState = CONNECTING, sent = [],
            handlers = \<lparr>c_url = url, c_aiResponse = aiResponse st,
                        c_selectedFile = selectedFile st\<rparr>\<rparr>],
        websocketRef := Some (length (sockets st))\<rparr>"

text \<open>\<open>ws.onopen\<close>, run on the socket itself.\<close>

definition onopen :: "WebSocket \<Rightarrow> WebSocket" where
  "onopen ws = ws_send (Start (c_url (handlers ws))) ws"

text \<open>The flush written three times in \<open>handleClone\<close>:
  \<open>if (aiResponse) { setMessages((prev) => [...prev, {..., content: aiResponse}]); setAiResponse("") }\<close>.
  Both the test and the content read the closure's \<open>aiResponse\<close>.\<close>

definition flush :: "closure \<Rightarrow> nat \<Rightarrow> state \<Rightarrow> state" where
  "flush c now st =
     (if c_aiResponse c \<noteq> []
      then st\<lparr>messages := messages st @ [Message (toString now) Assistant (c_aiResponse c)],
              aiResponse := []\<rparr>
      else st)"

text \<open>\<open>ws.onmessage\<close>. \<open>t1\<close> is the clock reading of the flush, \<open>t2\<close> that of the
  \<open>log\<close> turn. An exception leaves the handler before any setter has run.\<close>

definition onmessage :: "closure \<Rightarrow> frame \<Rightarrow> nat \<Rightarrow> nat \<Rightarrow> state \<Rightarrow> error + state" where
  "onmessage c fr t1 t2 st =
     (case fr of
        Unparsable \<Rightarrow> Inl SyntaxError
      | Parsed eventType d \<Rightarrow>
          Inr (if eventType = ''log'' then
                 (let st1 = flush c t1 st
                  in st1\<lparr>messages := messages st1 @
                           [Message (toString t2) Assistant (d_message d)]\<rparr>)
               else if eventType = ''ai_token'' then
                 st\<lparr>aiResponse := aiResponse st @ d_token d\<rparr>
               else if eventType = ''file_create'' \<or> eventType = ''file_update'' then
                 (let st1 = st\<lparr>files :=
                        Map_set (d_path d)
                          \<lparr>path = d_path d, content = d_content d,
                           oldContent =
                             (if eventType = ''file_update'' then d_old_content d
                              else map_option content (Map_get (files st) (d_path d)))\<rparr>
                          (files st)\<rparr>
                  in if c_selectedFile c = [] then st1\<lparr>selectedFile := d_path d\<rparr> else st1)
               else if eventType = ''status'' \<and> d_status d = ''ready'' then
                 flush c t1 (st\<lparr>isLive := True\<rparr>)
               else st))"

definition onclose :: "closure \<Rightarrow> nat \<Rightarrow> state \<Rightarrow> state" where
  "onclose c now st = flush c now st"

definition defaultUrl :: string where
  "defaultUrl = ''https://vercel.com/templates/next.js/nextjs-boilerplate''"

definition noUrlText :: string where
  "noUrlText = ''No URL detected. Cloning a default Next.js boilerplate from Vercel as an example.''"

text \<open>\<open>handleInitialSubmit\<close>: \<open>t1\<close> is the clock reading of the user turn, \<open>t2\<close> that
  of the assistant turn of the default branch.\<close>

definition handleInitialSubmit :: "nat \<Rightarrow> nat \<Rightarrow> state \<Rightarrow> state" where
  "handleInitialSubmit t1 t2 st =
     (let st1 = (if trim (input st) \<noteq> []
                 then st\<lparr>messages := messages st @ [Message (toString t1) User (input st)]\<rparr>
                 else st);
          st2 = (case urlMatch (input st) of
                   Some foundUrl \<Rightarrow> handleClone foundUrl st1
                 | None \<Rightarrow>
                     (let st' = handleClone defaultUrl st1
                      in st'\<lparr>messages := messages st' @
                               [Message (toString t2) Assistant noUrlText]\<rparr>))
      in st2\<lparr>input := []\<rparr>)"

text \<open>\<open>handleModificationSubmit\<close>: the guard returns before anything is changed.\<close>

definition handleModificationSubmit :: "nat \<Rightarrow> state \<Rightarrow> state" where
  "handleModificationSubmit now st =
     (case websocketRef st of
        None \<Rightarrow> st
      | Some i \<Rightarrow>
          if trim (input st) = [] \<or> readyState (sockets st ! i) \<noteq> OPEN then st
          else st\<lparr>messages := messages st @ [Message (toString now) User (input st)],
                  sockets := (sockets st)[i := ws_send (Modify (input st)) (sockets st ! i)],
                  input := []\<rparr>)"

subsection \<open>The session as a transition system\<close>

text \<open>
  What can happen to the component: the user acts on what is rendered (the landing page
  with the initial form while \<open>isBuilding\<close> is false; the chat form, the reset button
  and the file tree while it is true), and the browser delivers the events of a socket
  to the handlers installed on it. A \<open>message\<close> event is delivered only to a socket that
  is \<open>OPEN\<close>; a \<open>close\<close> event comes once for each socket, and sets it \<open>CLOSED\<close>
  before \<open>onclose\<close> runs. An exception that leaves \<open>onmessage\<close> is reported by the
  browser and changes nothing; the socket stays open.
\<close>

datatype event =
    InputChange string
  | InitialSubmit nat nat
  | ModificationSubmit nat
  | Reset
  | FileSelect string
  | WsOpen nat
  | WsMessage nat frame nat nat
  | WsError nat
  | WsClose nat nat

definition deliver :: "closure \<Rightarrow> frame \<Rightarrow> nat \<Rightarrow> nat \<Rightarrow> state \<Rightarrow> state" where
  "deliver c fr t1 t2 st = (case onmessage c fr t1 t2 st of Inl e \<Rightarrow> st | Inr st' \<Rightarrow> st')"

fun step :: "event \<Rightarrow> state \<Rightarrow> state option" where
  "step (InputChange text) st = Some (st\<lparr>input := text\<rparr>)"
| "step (InitialSubmit t1 t2) st =
     (if isBuilding st then None else Some (handleInitialSubmit t1 t2 st))"
| "step (ModificationSubmit now) st =
     (if isBuilding st then Some (handleModificationSubmit now st) else None)"
| "step Reset st = (if isBuilding st then Some (handleReset st) else None)"
| "step (FileSelect p) st = (if isBuilding st then Some (st\<lparr>selectedFile := p\<rparr>) else None)"
| "step (WsOpen i) st =
     (if i < length (sockets st) \<and> readyState (sockets st ! i) = CONNECTING
      then Some (st\<lparr>sockets := (sockets st)[i := onopen ((sockets st ! i)\<lparr>readyState := OPEN\<rparr>)]\<rparr>)
      else None)"
| "step (WsMessage i fr t1 t2) st =
     (if i < length (sockets st) \<and> readyState (sockets st ! i) = OPEN
      then Some (deliver (handlers (sockets st ! i)) fr t1 t2 st)
      else None)"
| "step (WsError i) st = (if i < length (sockets st) then Some st else None)"
| "step (WsClose i now) st =
     (if i < length (sockets st) \<and> readyState (sockets st ! i) \<noteq> CLOSED
      then Some (onclose (handlers (sockets st ! i)) now
                   (st\<lparr>sockets := (sockets st)[i := (sockets st ! i)\<lparr>readyState := CLOSED\<rparr>]\<rparr>))
      else None)"

fun run :: "event list \<Rightarrow> state \<Rightarrow> state option" where
  "run [] st = Some st"
| "run (e # es) st = (case step e st of None \<Rightarrow> None | Some st' \<Rightarrow> run es st')"

text \<open>The session states of the specification, read off the two flags.\<close>

datatype SessionState = Idle | Building | Live

definition sessionState :: "state \<Rightarrow> SessionState" where
  "sessionState st = (if \<not> isBuilding st then Idle else if isLive st then Live else Building)"

subsection \<open>The file tree of \<open>CodeEditorPanel\<close>\<close>

text \<open>A node \<open>{ name, type, children }\<close>; \<open>children\<close> is \<open>undefined\<close> for a file.\<close>

datatype TreeNode = TreeNode (name: string) (ntype: string) (children: "TreeNode list option")

text \<open>Replace the first node of a level that carries the given name.\<close>

fun replaceFirst :: "string \<Rightarrow> TreeNode \<Rightarrow> TreeNode list \<Rightarrow> TreeNode list" where
  "replaceFirst n new [] = []"
| "replaceFirst n new (x # xs) = (if name x = n then new # xs else x # replaceFirst n new xs)"

text \<open>
  The body of \<open>path.split("/").forEach\<close>, with \<open>currentLevel\<close> as the cursor. The
  source mutates the arrays in place; the model returns the level with the part added
  below it. When the node found for a part that is not the last has no \<open>children\<close>,
  \<open>currentLevel\<close> becomes \<open>undefined\<close> and the \<open>find\<close> of the next part throws.
\<close>

fun addParts :: "string list \<Rightarrow> TreeNode list \<Rightarrow> error + TreeNode list" where
  "addParts [] currentLevel = Inr currentLevel"
| "addParts (part # rest) currentLevel =
     (case find (\<lambda>i. name i = part) currentLevel of
        None \<Rightarrow>
          if rest = [] then Inr (currentLevel @ [TreeNode part ''file'' None])
          else (case addParts rest [] of
                  Inl e \<Rightarrow> Inl e
                | Inr ch \<Rightarrow> Inr (currentLevel @ [TreeNode part ''folder'' (Some ch)]))
      | Some existing \<Rightarrow>
          if rest = [] then Inr currentLevel
          else (case children existing of
                  None \<Rightarrow> Inl TypeError
                | Some ch \<Rightarrow>
                    (case addParts rest ch of
                       Inl e \<Rightarrow> Inl e
                     | Inr ch' \<Rightarrow>
                         Inr (replaceFirst part
                                (TreeNode (name existing) (ntype existing) (Some ch'))
                                currentLevel))))"

text \<open>\<open>Array.from(files.keys()).reduce(..., [])\<close>\<close>

fun reduce :: "string list \<Rightarrow> TreeNode list \<Rightarrow> error + TreeNode list" where
  "reduce [] acc = Inr acc"
| "reduce (p # ps) acc =
     (case addParts (split p) acc of Inl e \<Rightarrow> Inl e | Inr acc' \<Rightarrow> reduce ps acc')"

definition fileTree :: "FileMap \<Rightarrow> error + TreeNode list" where
  "fileTree fs = reduce (Map_keys fs) []"

subsection \<open>The inbound frames of the wire protocol\<close>

text \<open>The five frames the backend sends, as the objects \<open>JSON.parse\<close> returns for them.
  A field that a frame does not carry is never read by the branch of its event kind.\<close>

definition noData :: data where
  "noData = \<lparr> d_message = [], d_token = [], d_path = [], d_content = [],
              d_old_content = None, d_status = [] \<rparr>"

definition logFrame :: "string \<Rightarrow> frame" where
  "logFrame msg = Parsed ''log'' (noData\<lparr>d_message := msg\<rparr>)"

definition tokenFrame :: "string \<Rightarrow> frame" where
  "tokenFrame tok = Parsed ''ai_token'' (noData\<lparr>d_token := tok\<rparr>)"

definition fileCreate :: "string \<Rightarrow> string \<Rightarrow> frame" where
  "fileCreate p c = Parsed ''file_create'' (noData\<lparr>d_path := p, d_content := c\<rparr>)"

definition fileUpdate :: "string \<Rightarrow> string \<Rightarrow> string option \<Rightarrow> frame" where
  "fileUpdate p c old = Parsed ''file_update'' (noData\<lparr>d_path := p, d_content := c, d_old_content := old\<rparr>)"

definition statusFrame :: "string \<Rightarrow> frame" where
  "statusFrame s = Parsed ''status'' (noData\<lparr>d_status := s\<rparr>)"

subsection \<open>What holds in every state a session reaches\<close>

text \<open>The closure of a socket is fresh when it captured an empty \<open>aiResponse\<close> and an
  empty \<open>selectedFile\<close>; a socket is closing once \<open>close()\<close> was called on it or its
  close event has come.\<close>

definition freshClosure :: "WebSocket \<Rightarrow> bool" where
  "freshClosure ws = (c_aiResponse (handlers ws) = [] \<and> c_selectedFile (handlers ws) = [])"

definition closing :: "WebSocket \<Rightarrow> bool" where
  "closing ws = (readyState ws = CLOSING \<or> readyState ws = CLOSED)"

definition session_inv :: "state \<Rightarrow> bool" where
  "session_inv st =
     (list_all freshClosure (sockets st) \<and>
      (\<not> isBuilding st \<longrightarrow> aiResponse st = [] \<and> selectedFile st = [] \<and> websocketRef st = None) \<and>
      (\<forall>i. websocketRef st = Some i \<longrightarrow> i < length (sockets st)) \<and>
      (\<forall>i < length (sockets st). websocketRef st \<noteq> Some i \<longrightarrow> closing (sockets st ! i)))"

text \<open>What the chat panel shows: the turns, then the pending stream as one more turn.\<close>

definition displayedMessages :: "state \<Rightarrow> Message list" where
  "displayedMessages st =
     (if aiResponse st \<noteq> [] then messages st @ [Message ''ai-streaming'' Assistant (aiResponse st)]
      else messages st)"

subsection \<open>An http(s) URL in a text\<close>

text \<open>\<open>urlAt s k u\<close>: at offset \<open>k\<close> the text \<open>s\<close> reads \<open>u\<close>, which is \<open>http://\<close> or
  \<open>https://\<close> followed by at least one character, none of them white space, and \<open>u\<close>
  ends where the text ends or white space follows.\<close>

definition urlAt :: "string \<Rightarrow> nat \<Rightarrow> string \<Rightarrow> bool" where
  "urlAt s k u =
     (\<exists>scheme body rest.
        (scheme = ''http://'' \<or> scheme = ''https://'') \<and>
        body \<noteq> [] \<and> (\<forall>c \<in> set body. \<not> isSpace c) \<and>
        (rest = [] \<or> isSpace (hd rest)) \<and>
        u = scheme @ body \<and> drop k s = u @ rest)"

subsection \<open>Opening a connection\<close>

text \<open>The frames a freshly created socket has sent once its \<open>open\<close> event has been
  handled: what \<open>ws.onopen\<close> sends for the socket that \<open>websocketRef\<close> refers to.\<close>

definition startFrames :: "state \<Rightarrow> outFrame list option" where
  "startFrames st =
     (case websocketRef st of
        None \<Rightarrow> None
      | Some n \<Rightarrow> map_option (\<lambda>s. sent (sockets s ! n)) (step (WsOpen n) st))"

text \<open>A session in \<open>Building\<close>: the state after the user has submitted
  \<open>https://example.com\<close> and the connection has opened.\<close>

definition buildingState :: state where
  "buildingState =
     \<lparr> isBuilding = True, files = [], selectedFile = [], isLive = False, aiResponse = [],
       messages = [Message ''1'' User ''https://example.com''], input = [],
       websocketRef = Some 0,
       sockets = [\<lparr>readyState = OPEN, sent = [Start ''https://example.com''],
                   handlers = \<lparr>c_url = ''https://example.com'', c_aiResponse = [],
                               c_selectedFile = []\<rparr>\<rparr>] \<rparr>"

subsection \<open>What a projected tree has to be\<close>

text \<open>A node is well formed when it is a file without \<open>children\<close> or a folder whose
  children are well formed and carry distinct names; a level is well formed when its
  nodes are and no two of them share a name.\<close>

fun wellFormed :: "TreeNode \<Rightarrow> bool" where
  "wellFormed (TreeNode n t ch) =
     (case ch of
        None \<Rightarrow> t = ''file''
      | Some cs \<Rightarrow> t = ''folder'' \<and> distinct (map name cs) \<and> (\<forall>c \<in> set cs. wellFormed c))"

definition wellFormedLevel :: "TreeNode list \<Rightarrow> bool" where
  "wellFormedLevel level = (distinct (map name level) \<and> (\<forall>n \<in> set level. wellFormed n))"

text \<open>\<open>kindAt level parts\<close> walks down from a level along the parts of a path and
  returns the \<open>type\<close> of the node it arrives at, if there is one.\<close>

fun kindAt :: "TreeNode list \<Rightarrow> string list \<Rightarrow> string option" where
  "kindAt level [] = None"
| "kindAt level (s # rest) =
     (case find (\<lambda>i. name i = s) level of
        None \<Rightarrow> None
      | Some n \<Rightarrow>
          if rest = [] then Some (ntype n)
          else (case children n of None \<Rightarrow> None | Some ch \<Rightarrow> kindAt ch rest))"

text \<open>A list of paths is consistent when no path continues below another: the parts of
  one are never the parts of another followed by more.\<close>

definition consistent :: "string list \<Rightarrow> bool" where
  "consistent ps = (\<forall>p \<in> set ps. \<forall>q \<in> set ps. \<not> strict_prefix (split p) (split q))"

text \<open>\<open>projects t ps\<close>: the tree \<open>t\<close> is the projection of the paths \<open>ps\<close>. It is well
  formed, the nodes it has are a file node at the parts of every path and a folder node
  at every part sequence that a path continues, and it has no other node.
  \<open>added parts level level'\<close> says the same of one path added below a level.\<close>

definition projects :: "TreeNode list \<Rightarrow> string list \<Rightarrow> bool" where
  "projects t ps =
     (wellFormedLevel t \<and>
      (\<forall>q. kindAt t q =
         (if q \<in> split ` set ps then Some ''file''
          else if q \<noteq> [] \<and> (\<exists>p \<in> set ps. strict_prefix q (split p)) then Some ''folder''
          else None)))"

definition added :: "string list \<Rightarrow> TreeNode list \<Rightarrow> TreeNode list \<Rightarrow> bool" where
  "added segs level level' =
     (wellFormedLevel level' \<and>
      (\<forall>q. kindAt level' q =
         (if q = segs then Some ''file''
          else if q \<noteq> [] \<and> strict_prefix q segs then Some ''folder''
          else kindAt level q)))"

section \<open>Lemmas\<close>

subsection \<open>The file store\<close>

lemma Map_get_Map_set: "Map_get (Map_set k v m) k = Some v"
  by (induction m) auto

subsection \<open>The invariant of a session\<close>

lemma run_snoc: "run (es @ [e]) st = (case run es st of None \<Rightarrow> None | Some st' \<Rightarrow> step e st')"
  by (induction es arbitrary: st) (auto split: option.splits)

lemma inv_initial: "session_inv initial"
  by (simp add: session_inv_def initial_def)

lemma flush_fresh: "c_aiResponse c = [] \<Longrightarrow> flush c now st = st"
  by (simp add: flush_def)

lemma deliver_fresh_fields:
  assumes "c_aiResponse c = []"
  shows "sockets (deliver c fr t1 t2 st) = sockets st"
    and "websocketRef (deliver c fr t1 t2 st) = websocketRef st"
    and "isBuilding (deliver c fr t1 t2 st) = isBuilding st"
  using assms by (auto simp: deliver_def onmessage_def flush_def Let_def split: frame.splits)

lemma inv_step:
  assumes "session_inv st" "step e st = Some st'"
  shows "session_inv st'"
proof (cases e)
  case (InputChange x1)
  then show ?thesis using assms by (auto simp: session_inv_def)
next
  case (InitialSubmit t1 t2)
  then show ?thesis using assms
    by (auto simp: session_inv_def handleInitialSubmit_def handleClone_def Let_def freshClosure_def nth_append closing_def
        less_Suc_eq split: if_splits option.splits)
next
  case (ModificationSubmit x3)
  then show ?thesis using assms 
    by (auto simp: session_inv_def handleModificationSubmit_def ws_send_def list_all_length nth_list_update freshClosure_def closing_def
        split: if_splits option.splits)
next
  case Reset
  then show ?thesis using assms
    by (auto simp: session_inv_def handleReset_def ws_close_def list_all_length nth_list_update freshClosure_def closing_def
        split: if_splits option.splits)
next
  case (FileSelect x5)
  then show ?thesis using assms by (auto simp: session_inv_def split: if_splits)
next
  case (WsOpen i)
  then show ?thesis using assms 
    by (auto simp: session_inv_def onopen_def ws_send_def list_all_length nth_list_update freshClosure_def closing_def
        split: if_splits option.splits)
next
  case (WsMessage i fr t1 t2)
  with assms have i: "i < length (sockets st)" "readyState (sockets st ! i) = OPEN"
    and st': "st' = deliver (handlers (sockets st ! i)) fr t1 t2 st"
    by (auto split: if_splits)
  from assms(1) i have c: "c_aiResponse (handlers (sockets st ! i)) = []"
    by (auto simp: session_inv_def list_all_length freshClosure_def)
  from assms(1) i have "websocketRef st = Some i"
    by (auto simp: session_inv_def closing_def)
  with assms(1) have b: "isBuilding st" by (auto simp: session_inv_def)
  show ?thesis using assms(1) b unfolding session_inv_def st' deliver_fresh_fields[OF c]
    by simp
next
  case (WsError x8)
  then show ?thesis using assms by (auto split: if_splits)
next
  case (WsClose i now)
  with assms have i: "i < length (sockets st)" 
    and st': "st' = onclose (handlers (sockets st ! i)) now
                   (st\<lparr>sockets := (sockets st)[i := (sockets st ! i)\<lparr>readyState := CLOSED\<rparr>]\<rparr>)"
    by (auto split: if_splits)
  from assms(1) i have c: "c_aiResponse (handlers (sockets st ! i)) = []"
    by (auto simp: session_inv_def list_all_length freshClosure_def)
  show ?thesis using assms(1) i unfolding st' onclose_def flush_fresh[OF c]
    by (auto simp: session_inv_def list_all_length nth_list_update freshClosure_def closing_def)
qed

lemma inv_run: "session_inv st \<Longrightarrow> run es st = Some st' \<Longrightarrow> session_inv st'"
  by (induction es arbitrary: st) (auto split: option.splits dest: inv_step)

lemmas inv_reachable = inv_run [OF inv_initial]

subsection \<open>The URL pattern finds the leftmost URL\<close>

lemma stripPrefix_iff: "stripPrefix p s = Some r \<longleftrightarrow> s = p @ r"
  by (induction p s rule: stripPrefix.induct) auto

lemma takeWhile_run:
  "\<exists>rest. xs = takeWhile P xs @ rest \<and> (rest = [] \<or> \<not> P (hd rest))"
  by (metis hd_dropWhile takeWhile_dropWhile_id)

lemma run_takeWhile:
  "(\<forall>c \<in> set b. P c) \<Longrightarrow> rest = [] \<or> \<not> P (hd rest) \<Longrightarrow> takeWhile P (b @ rest) = b"
  by (cases rest) (auto simp: takeWhile_append2 takeWhile_eq_all_conv)

lemma matchAt_Some_iff:
  "matchAt s = Some u \<longleftrightarrow>
     (\<exists>scheme body rest.
        (scheme = ''http://'' \<or> scheme = ''https://'') \<and>
        body \<noteq> [] \<and> (\<forall>c \<in> set body. \<not> isSpace c) \<and>
        (rest = [] \<or> isSpace (hd rest)) \<and>
        u = scheme @ body \<and> s = u @ rest)" (is "?L = ?R")
proof
  assume L: ?L
  have "\<exists>p r. ((stripPrefix ''https://'' s = Some r \<and> p = ''https://'') \<or>
       (stripPrefix ''http://'' s = Some r \<and> p = ''http://'')) \<and>
       takeWhile (\<lambda>c. \<not> isSpace c) r \<noteq> [] \<and> u = p @ takeWhile (\<lambda>c. \<not> isSpace c) r"
  proof (cases "stripPrefix ''https://'' s")
    case None
    note n = this
    show ?thesis
    proof (cases "stripPrefix ''http://'' s")
      case None
      with n L show ?thesis by (simp add: matchAt_def)
    next
      case (Some r)
      with n L have "takeWhile (\<lambda>c. \<not> isSpace c) r \<noteq> [] \<and> u = ''http://'' @ takeWhile (\<lambda>c. \<not> isSpace c) r"
        by (auto simp: matchAt_def Let_def split: if_splits)
      with Some show ?thesis by blast
    qed
  next
    case (Some r)
    with L have "takeWhile (\<lambda>c. \<not> isSpace c) r \<noteq> [] \<and> u = ''https://'' @ takeWhile (\<lambda>c. \<not> isSpace c) r"
      by (auto simp: matchAt_def Let_def split: if_splits)
    with Some show ?thesis by blast
  qed
  then obtain p r where pr: "(stripPrefix ''https://'' s = Some r \<and> p = ''https://'') \<or>
       (stripPrefix ''http://'' s = Some r \<and> p = ''http://'')"
     and b: "takeWhile (\<lambda>c. \<not> isSpace c) r \<noteq> []" and u: "u = p @ takeWhile (\<lambda>c. \<not> isSpace c) r"
    by blast
  from pr have s: "s = p @ r" by (auto simp: stripPrefix_iff)
  obtain rest where r: "r = takeWhile (\<lambda>c. \<not> isSpace c) r @ rest" "rest = [] \<or> isSpace (hd rest)"
    using takeWhile_run[of r "\<lambda>c. \<not> isSpace c"] by auto
  have ns: "\<forall>c \<in> set (takeWhile (\<lambda>c. \<not> isSpace c) r). \<not> isSpace c"
    by (auto dest: set_takeWhileD)
  have "s = u @ rest" using s r(1) u by (metis append.assoc)
  with pr b u r(2) ns show ?R by blast
next
  assume ?R
  then obtain scheme body rest where
    sch: "scheme = ''http://'' \<or> scheme = ''https://''" and b: "body \<noteq> []"
    and ns: "\<forall>c \<in> set body. \<not> isSpace c" and r: "rest = [] \<or> isSpace (hd rest)"
    and u: "u = scheme @ body" and s: "s = u @ rest" by blast
  have tw: "takeWhile (\<lambda>c. \<not> isSpace c) (body @ rest) = body"
    using ns r by (intro run_takeWhile) auto
  from sch show ?L
  proof
    assume h: "scheme = ''http://''"
    have n: "stripPrefix ''https://'' s = None"
      unfolding s u h by simp
    have "stripPrefix ''http://'' s = Some (body @ rest)"
      unfolding s u h by simp
    with n tw b show ?L unfolding u h by (simp add: matchAt_def)
  next
    assume h: "scheme = ''https://''"
    have "stripPrefix ''https://'' s = Some (body @ rest)"
      unfolding s u h by simp
    with tw b show ?L unfolding u h by (simp add: matchAt_def)
  qed
qed

lemma matchAt_Nil: "matchAt [] = None"
  by (simp add: matchAt_def)

lemma urlMatch_None_iff: "urlMatch s = None \<longleftrightarrow> (\<forall>k. matchAt (drop k s) = None)"
proof (induction s)
  case Nil
  then show ?case by (simp add: matchAt_Nil)
next
  case (Cons c cs)
  show ?case
  proof
    assume a: "urlMatch (c # cs) = None"
    then have m: "matchAt (c # cs) = None" and r: "urlMatch cs = None"
      by (auto split: option.splits)
    show "\<forall>k. matchAt (drop k (c # cs)) = None"
    proof
      fix k show "matchAt (drop k (c # cs)) = None"
        using m r Cons.IH by (cases k) auto
    qed
  next
    assume a: "\<forall>k. matchAt (drop k (c # cs)) = None"
    then have "matchAt (drop 0 (c # cs)) = None" by blast
    moreover have "\<forall>k. matchAt (drop k cs) = None"
    proof
      fix k from a have "matchAt (drop (Suc k) (c # cs)) = None" by blast
      then show "matchAt (drop k cs) = None" by simp
    qed
    ultimately show "urlMatch (c # cs) = None" using Cons.IH by simp
  qed
qed

lemma urlMatch_Some_leftmost:
  "urlMatch s = Some u \<Longrightarrow>
     \<exists>k. matchAt (drop k s) = Some u \<and> (\<forall>j<k. matchAt (drop j s) = None)"
proof (induction s)
  case Nil
  then show ?case by simp
next
  case (Cons c cs)
  show ?case
  proof (cases "matchAt (c # cs)")
    case None
    with Cons.prems have "urlMatch cs = Some u" by simp
    with Cons.IH obtain k where k: "matchAt (drop k cs) = Some u" "\<forall>j<k. matchAt (drop j cs) = None"
      by blast
    have "\<forall>j<Suc k. matchAt (drop j (c # cs)) = None"
    proof (intro allI impI)
      fix j assume "j < Suc k"
      then show "matchAt (drop j (c # cs)) = None"
        using None k(2) by (cases j) auto
    qed
    with k(1) show ?thesis by (intro exI[of _ "Suc k"]) simp
  next
    case (Some m)
    with Cons.prems have "m = u" by simp
    with Some show ?thesis by (intro exI[of _ 0]) simp
  qed
qed

lemma leftmost_urlMatch:
  "matchAt (drop k s) = Some u \<Longrightarrow> (\<forall>j<k. matchAt (drop j s) = None) \<Longrightarrow> urlMatch s = Some u"
proof (induction s arbitrary: k)
  case Nil
  then show ?case by (simp add: matchAt_Nil)
next
  case (Cons c cs)
  show ?case
  proof (cases k)
    case 0
    with Cons.prems show ?thesis by simp
  next
    case (Suc k')
    with Cons.prems have m: "matchAt (drop k' cs) = Some u" by simp
    have n: "\<forall>j<k'. matchAt (drop j cs) = None"
    proof (intro allI impI)
      fix j assume "j < k'"
      then have "Suc j < k" using Suc by simp
      with Cons.prems(2) have "matchAt (drop (Suc j) (c # cs)) = None" by blast
      then show "matchAt (drop j cs) = None" by simp
    qed
    from Cons.prems(2) Suc have "matchAt (drop 0 (c # cs)) = None" by blast
    then have "matchAt (c # cs) = None" by simp
    with Cons.IH[OF m n] show ?thesis by simp
  qed
qed

lemma urlAt_matchAt: "urlAt s k u \<longleftrightarrow> matchAt (drop k s) = Some u"
  by (simp add: urlAt_def matchAt_Some_iff)

lemma buildingState_reached:
  "run [InputChange ''https://example.com'', InitialSubmit 1 1, WsOpen 0] initial = Some buildingState"
  by code_simp

subsection \<open>The initial submission\<close>

lemma submit_url:
  assumes "urlMatch (input st) = Some u"
  shows "startFrames (handleInitialSubmit t1 t2 st) = Some [Start u]"
    and "messages (handleInitialSubmit t1 t2 st) =
           messages st @ (if trim (input st) \<noteq> [] then [Message (toString t1) User (input st)] else [])"
    and "isBuilding (handleInitialSubmit t1 t2 st)"
  using assms
  by (auto simp: handleInitialSubmit_def Let_def handleClone_def startFrames_def onopen_def ws_send_def)

lemma submit_default:
  assumes "urlMatch (input st) = None"
  shows "startFrames (handleInitialSubmit t1 t2 st) = Some [Start defaultUrl]"
    and "messages (handleInitialSubmit t1 t2 st) =
           messages st @ (if trim (input st) \<noteq> [] then [Message (toString t1) User (input st)] else [])
             @ [Message (toString t2) Assistant noUrlText]"
    and "isBuilding (handleInitialSubmit t1 t2 st)"
  using assms
  by (auto simp: handleInitialSubmit_def Let_def handleClone_def startFrames_def onopen_def ws_send_def)

subsection \<open>What every reachable session does with the captured variables\<close>

lemma open_socket_fresh:
  assumes "run evs initial = Some st" "i < length (sockets st)"
  shows "c_aiResponse (handlers (sockets st ! i)) = []"
    and "c_selectedFile (handlers (sockets st ! i)) = []"
  using inv_reachable [OF assms(1)] assms(2)
  by (auto simp: session_inv_def list_all_length freshClosure_def)

lemma log_appends_only_its_message:
  assumes "run evs initial = Some st"
    and "step (WsMessage i (logFrame m) t1 t2) st = Some st'"
  shows "st' = st\<lparr>messages := messages st @ [Message (toString t2) Assistant m]\<rparr>"
proof -
  from assms(2) have i: "i < length (sockets st)"
    and s: "st' = deliver (handlers (sockets st ! i)) (logFrame m) t1 t2 st"
    by (auto split: if_splits)
  from open_socket_fresh(1) [OF assms(1) i] show ?thesis
    unfolding s by (simp add: deliver_def onmessage_def logFrame_def noData_def flush_def)
qed

lemma ready_flushes_nothing:
  assumes "run evs initial = Some st"
    and "step (WsMessage i (statusFrame ''ready'') t1 t2) st = Some st'"
  shows "st' = st\<lparr>isLive := True\<rparr>"
proof -
  from assms(2) have i: "i < length (sockets st)"
    and s: "st' = deliver (handlers (sockets st ! i)) (statusFrame ''ready'') t1 t2 st"
    by (auto split: if_splits)
  from open_socket_fresh(1) [OF assms(1) i] show ?thesis
    unfolding s by (simp add: deliver_def onmessage_def statusFrame_def noData_def flush_def)
qed

lemma close_changes_no_text:
  assumes "run evs initial = Some st"
    and "step (WsClose i now) st = Some st'"
  shows "messages st' = messages st \<and> aiResponse st' = aiResponse st"
proof -
  from assms(2) have i: "i < length (sockets st)"
    and s: "st' = onclose (handlers (sockets st ! i)) now
                   (st\<lparr>sockets := (sockets st)[i := (sockets st ! i)\<lparr>readyState := CLOSED\<rparr>]\<rparr>)"
    by (auto split: if_splits)
  from open_socket_fresh(1) [OF assms(1) i] show ?thesis
    unfolding s by (simp add: onclose_def flush_def)
qed

lemma file_event_takes_focus:
  assumes "run evs initial = Some st"
    and "fr = fileCreate p c \<or> fr = fileUpdate p c old"
    and "step (WsMessage i fr t1 t2) st = Some st'"
  shows "selectedFile st' = p"
proof -
  from assms(3) have i: "i < length (sockets st)"
    and s: "st' = deliver (handlers (sockets st ! i)) fr t1 t2 st"
    by (auto split: if_splits)
  from open_socket_fresh(2) [OF assms(1) i] assms(2) show ?thesis
    unfolding s
    by (auto simp: deliver_def onmessage_def fileCreate_def fileUpdate_def noData_def Let_def)
qed

lemma step_appends_turns:
  assumes "step e st = Some st'" "e \<noteq> Reset"
  shows "\<exists>new. messages st' = messages st @ new"
proof (cases e)
  case (WsMessage i fr t1 t2)
  with assms show ?thesis
    by (cases fr) (auto simp: deliver_def onmessage_def flush_def Let_def split: if_splits)
next
  case (InitialSubmit t1 t2)
  with assms show ?thesis
    by (auto simp: handleInitialSubmit_def handleClone_def Let_def split: if_splits option.splits)
next
  case (ModificationSubmit now)
  with assms show ?thesis
    by (auto simp: handleModificationSubmit_def split: if_splits option.splits)
next
  case (WsClose i now)
  with assms show ?thesis
    by (auto simp: onclose_def flush_def split: if_splits)
qed (use assms in \<open>auto split: if_splits\<close>)

subsection \<open>The scenarios of the specification that hold\<close>

lemma scenario_C:
  "map_option (\<lambda>st. fileTree (files st))
     (run [InputChange ''https://example.com'', InitialSubmit 1 1, WsOpen 0,
           WsMessage 0 (fileCreate ''a/b/c.txt'' ''x'') 2 2,
           WsMessage 0 (fileCreate ''a/b/d.txt'' ''y'') 3 3] initial)
   = Some (Inr [TreeNode ''a'' ''folder''
                  (Some [TreeNode ''b'' ''folder''
                           (Some [TreeNode ''c.txt'' ''file'' None,
                                  TreeNode ''d.txt'' ''file'' None])])])"
  by code_simp

lemma scenario_A:
  "map_option (\<lambda>st. (selectedFile st, sessionState st, messages st))
     (run [InputChange ''https://example.com'', InitialSubmit 1 1, WsOpen 0,
           WsMessage 0 (fileCreate ''index.html'' ''<a>'') 2 2,
           WsMessage 0 (statusFrame ''ready'') 3 3] initial)
   = Some (''index.html'', Live, [Message ''1'' User ''https://example.com''])"
  by code_simp

subsection \<open>The tree of a consistent list of paths\<close>

lemma split_nonempty: "split s \<noteq> []"
  by (induction s) (auto split: list.splits)

lemma find_snoc:
  "find P (xs @ [x]) = (case find P xs of Some y \<Rightarrow> Some y | None \<Rightarrow> if P x then Some x else None)"
  by (induction xs) auto

lemma find_replaceFirst:
  "name new = part \<Longrightarrow> find (\<lambda>i. name i = part) level = Some existing \<Longrightarrow>
   find (\<lambda>i. name i = s) (replaceFirst part new level) =
     (if s = part then Some new else find (\<lambda>i. name i = s) level)"
  by (induction level) auto

lemma names_replaceFirst:
  "name new = part \<Longrightarrow> map name (replaceFirst part new level) = map name level"
  by (induction level) auto

lemma set_replaceFirst: "set (replaceFirst part new level) \<subseteq> insert new (set level)"
  by (induction level) auto

lemma find_name: "find (\<lambda>i. name i = s) level = Some n \<Longrightarrow> name n = s \<and> n \<in> set level"
  by (induction level) (auto split: if_splits)

lemma find_None_name: "find (\<lambda>i. name i = s) level = None \<Longrightarrow> s \<notin> set (map name level)"
  by (induction level) (auto split: if_splits)

lemma wellFormed_cases:
  "wellFormed n \<Longrightarrow>
     (ntype n = ''file'' \<and> children n = None) \<or>
     (ntype n = ''folder'' \<and> (\<exists>ch. children n = Some ch \<and> wellFormedLevel ch))"
  by (cases n) (auto simp: wellFormedLevel_def split: option.splits)

lemma strict_prefix_Nil_iff [simp]: "strict_prefix [] xs \<longleftrightarrow> xs \<noteq> []"
  by (cases xs) auto

lemma kindAt_Nil_level [simp]: "kindAt [] q = None"
  by (cases q) auto

lemma addParts_last:
  assumes wf: "wellFormedLevel level"
    and nofolder: "kindAt level [part] \<noteq> Some ''folder''"
  shows "\<exists>level'. addParts [part] level = Inr level' \<and> added [part] level level'"
proof (cases "find (\<lambda>i. name i = part) level")
  case None
  let ?new = "TreeNode part ''file'' None"
  have r: "addParts [part] level = Inr (level @ [?new])" using None by simp
  have w: "wellFormedLevel (level @ [?new])"
    using wf find_None_name [OF None] by (auto simp: wellFormedLevel_def)
  have k: "kindAt (level @ [?new]) q =
         (if q = [part] then Some ''file''
          else if q \<noteq> [] \<and> strict_prefix q [part] then Some ''folder''
          else kindAt level q)" for q
  proof (cases q)
    case Nil
    then show ?thesis by simp
  next
    case (Cons s r)
    show ?thesis
    proof (cases "s = part")
      case True
      then show ?thesis using None Cons by (auto simp: find_snoc)
    next
      case False
      then show ?thesis using Cons by (auto simp: find_snoc split: option.splits)
    qed
  qed
  from r w k show ?thesis unfolding added_def by blast
next
  case (Some existing)
  have r: "addParts [part] level = Inr level" using Some by simp
  from find_name [OF Some] wf have "wellFormed existing" by (auto simp: wellFormedLevel_def)
  from wellFormed_cases [OF this] nofolder Some have f: "ntype existing = ''file''" by auto
  have k: "kindAt level q =
         (if q = [part] then Some ''file''
          else if q \<noteq> [] \<and> strict_prefix q [part] then Some ''folder''
          else kindAt level q)" for q
    using Some f by (cases q) auto
  from r wf k show ?thesis unfolding added_def by blast
qed

lemma addParts_spec:
  assumes "wellFormedLevel level" "segs \<noteq> []"
    and "\<forall>pre. pre \<noteq> [] \<and> strict_prefix pre segs \<longrightarrow> kindAt level pre \<noteq> Some ''file''"
    and "kindAt level segs \<noteq> Some ''folder''"
  shows "\<exists>level'. addParts segs level = Inr level' \<and> added segs level level'"
  using assms
proof (induction segs arbitrary: level)
  case Nil
  then show ?case by simp
next
  case (Cons part rest)
  note wf = Cons.prems(1) and nofile = Cons.prems(3) and nofolder = Cons.prems(4)
  show ?case
  proof (cases "rest = []")
    case True
    with addParts_last [OF wf] nofolder show ?thesis by simp
  next
    case False
    note rest = this
    show ?thesis
    proof (cases "find (\<lambda>i. name i = part) level")
      case None
      from Cons.IH [of "[]"] rest obtain ch where
        ch: "addParts rest [] = Inr ch" "added rest [] ch"
        by (auto simp: wellFormedLevel_def)
      let ?new = "TreeNode part ''folder'' (Some ch)"
      have r: "addParts (part # rest) level = Inr (level @ [?new])"
        using None rest ch(1) by simp
      have w: "wellFormedLevel (level @ [?new])"
        using wf find_None_name [OF None] ch(2)
        by (auto simp: wellFormedLevel_def added_def)
      have k: "kindAt (level @ [?new]) q =
         (if q = part # rest then Some ''file''
          else if q \<noteq> [] \<and> strict_prefix q (part # rest) then Some ''folder''
          else kindAt level q)" for q
      proof (cases q)
        case Nil
        then show ?thesis by simp
      next
        case (Cons s r')
        show ?thesis
        proof (cases "s = part")
          case True
          show ?thesis
          proof (cases "r' = []")
            case True
            with \<open>s = part\<close> Cons None rest show ?thesis by (auto simp: find_snoc)
          next
            case False
            with \<open>s = part\<close> Cons None rest ch(2) show ?thesis
              by (auto simp: find_snoc added_def)
          qed
        next
          case False
          then show ?thesis using Cons by (auto simp: find_snoc split: option.splits)
        qed
      qed
      from r w k show ?thesis unfolding added_def by blast
    next
      case (Some existing)
      from find_name [OF Some] have nm: "name existing = part" and mem: "existing \<in> set level"
        by auto
      from mem wf have wfe: "wellFormed existing" by (auto simp: wellFormedLevel_def)
      have "strict_prefix [part] (part # rest)" using rest by simp
      with nofile have "kindAt level [part] \<noteq> Some ''file''" by blast
      with Some have "ntype existing \<noteq> ''file''" by simp
      with wellFormed_cases [OF wfe] obtain ch where
        ty: "ntype existing = ''folder''" and ch: "children existing = Some ch"
        and wfch: "wellFormedLevel ch" by auto
      have below: "kindAt level (part # q) = kindAt ch q" if "q \<noteq> []" for q
        using Some ch that by simp
      have p3: "\<forall>pre. pre \<noteq> [] \<and> strict_prefix pre rest \<longrightarrow> kindAt ch pre \<noteq> Some ''file''"
      proof (intro allI impI)
        fix pre assume a: "pre \<noteq> [] \<and> strict_prefix pre rest"
        then have "strict_prefix (part # pre) (part # rest)" by simp
        with nofile have "kindAt level (part # pre) \<noteq> Some ''file''" by blast
        with below a show "kindAt ch pre \<noteq> Some ''file''" by simp
      qed
      have p4: "kindAt ch rest \<noteq> Some ''folder''"
        using nofolder below [OF rest] by simp
      from Cons.IH [OF wfch rest p3 p4] obtain ch' where
        ch': "addParts rest ch = Inr ch'" "added rest ch ch'" by blast
      let ?new = "TreeNode (name existing) (ntype existing) (Some ch')"
      have r: "addParts (part # rest) level = Inr (replaceFirst part ?new level)"
        using Some rest ch ch'(1) by simp
      have nn: "name ?new = part" using nm by simp
      have wn: "wellFormed ?new" using ty ch'(2) by (simp add: added_def wellFormedLevel_def)
      have w: "wellFormedLevel (replaceFirst part ?new level)"
        using wf wn set_replaceFirst [of part ?new level] names_replaceFirst [OF nn, of level]
        unfolding wellFormedLevel_def by auto
      have k1: "kindAt (replaceFirst part ?new level) (s # r') =
          (if s = part then (if r' = [] then Some (ntype existing) else kindAt ch' r')
           else kindAt level (s # r'))" for s r'
        by (simp add: find_replaceFirst [OF nn Some])
      have k: "kindAt (replaceFirst part ?new level) q =
         (if q = part # rest then Some ''file''
          else if q \<noteq> [] \<and> strict_prefix q (part # rest) then Some ''folder''
          else kindAt level q)" for q
      proof (cases q)
        case Nil
        then show ?thesis by simp
      next
        case (Cons s r')
        show ?thesis
        proof (cases "s = part")
          case True
          show ?thesis
          proof (cases "r' = []")
            case True
            with \<open>s = part\<close> rest ty show ?thesis
              unfolding Cons k1 by simp
          next
            case False
            with \<open>s = part\<close> rest ch'(2) below [OF False] show ?thesis
              unfolding Cons k1 by (simp add: added_def)
          qed
        next
          case False
          then show ?thesis unfolding Cons k1 by simp
        qed
      qed
      from r w k show ?thesis unfolding added_def by blast
    qed
  qed
qed

lemma projects_step:
  assumes c: "consistent (seen @ [p])" and pr: "projects acc seen"
  shows "\<exists>acc'. addParts (split p) acc = Inr acc' \<and> projects acc' (seen @ [p])"
proof -
  from pr have wf: "wellFormedLevel acc"
    and k: "\<And>q. kindAt acc q =
         (if q \<in> split ` set seen then Some ''file''
          else if q \<noteq> [] \<and> (\<exists>d \<in> set seen. strict_prefix q (split d)) then Some ''folder''
          else None)"
    by (simp_all add: projects_def)
  from c have c1: "\<And>d. d \<in> set seen \<Longrightarrow> \<not> strict_prefix (split d) (split p)"
    and c2: "\<And>d. d \<in> set seen \<Longrightarrow> \<not> strict_prefix (split p) (split d)"
    by (auto simp: consistent_def)
  have a3: "\<forall>pre. pre \<noteq> [] \<and> strict_prefix pre (split p) \<longrightarrow> kindAt acc pre \<noteq> Some ''file''"
  proof (intro allI impI)
    fix pre assume a: "pre \<noteq> [] \<and> strict_prefix pre (split p)"
    with c1 have "pre \<notin> split ` set seen" by auto
    then show "kindAt acc pre \<noteq> Some ''file''" by (simp add: k)
  qed
  have a4: "kindAt acc (split p) \<noteq> Some ''folder''"
    using c2 by (auto simp: k)
  from addParts_spec [OF wf split_nonempty a3 a4] obtain acc' where
    r: "addParts (split p) acc = Inr acc'" and ad: "added (split p) acc acc'" by blast
  have "kindAt acc' q =
         (if q \<in> split ` set (seen @ [p]) then Some ''file''
          else if q \<noteq> [] \<and> (\<exists>d \<in> set (seen @ [p]). strict_prefix q (split d)) then Some ''folder''
          else None)" for q
  proof (cases "q = split p")
    case True
    with ad show ?thesis by (simp add: added_def)
  next
    case False
    note ne = this
    show ?thesis
    proof (cases "q \<noteq> [] \<and> strict_prefix q (split p)")
      case True
      with c1 have "q \<notin> split ` set seen" by auto
      with True ne ad show ?thesis by (auto simp: added_def)
    next
      case False
      with ne ad have "kindAt acc' q = kindAt acc q" by (auto simp: added_def)
      with False ne show ?thesis by (auto simp: k)
    qed
  qed
  with ad have "projects acc' (seen @ [p])" by (simp add: projects_def added_def)
  with r show ?thesis by blast
qed

lemma reduce_spec:
  assumes "consistent (seen @ ps)" "projects acc seen"
  shows "\<exists>t. reduce ps acc = Inr t \<and> projects t (seen @ ps)"
  using assms
proof (induction ps arbitrary: acc seen)
  case Nil
  then show ?case by simp
next
  case (Cons p ps)
  from Cons.prems(1) have "consistent (seen @ [p])" by (auto simp: consistent_def)
  from projects_step [OF this Cons.prems(2)] obtain acc' where
    a: "addParts (split p) acc = Inr acc'" "projects acc' (seen @ [p])" by blast
  from Cons.prems(1) have "consistent ((seen @ [p]) @ ps)" by simp
  from Cons.IH [OF this a(2)] a(1) show ?case by simp
qed

lemma projects_empty: "projects [] []"
  by (simp add: projects_def wellFormedLevel_def)

lemma fileTree_of_consistent_paths:
  assumes "consistent (Map_keys fs)"
  shows "\<exists>t. fileTree fs = Inr t \<and> projects t (Map_keys fs)"
  using reduce_spec [of "[]" "Map_keys fs" "[]"] assms projects_empty
  by (simp add: fileTree_def)

section \<open>The claims\<close>

text \<open>
  \<^bold>\<open>C1\<close>. Handling a \<open>log\<close> event should first flush a non-empty pending stream text
  into the timeline as one assistant turn and then append the log's message; after
  \<open>ai_token "Hel"\<close>, \<open>ai_token "lo"\<close>, \<open>log "Done"\<close> the timeline should end with the
  assistant turns \<open>"Hello"\<close>, \<open>"Done"\<close>.
  The code does not do so. The \<open>log\<close> branch tests the \<open>aiResponse\<close> that \<open>handleClone\<close>
  captured, which is empty, so the flush is skipped: in that scenario the timeline holds
  the user's turn and \<open>"Done"\<close>, the text \<open>"Hello"\<close> stays pending, and the chat shows it
  after \<open>"Done"\<close>.
\<close>

theorem C1_log_leaves_pending_text:
  "map_option (\<lambda>st. (messages st, aiResponse st, displayedMessages st))
     (run [InputChange ''https://example.com'', InitialSubmit 1 1, WsOpen 0,
           WsMessage 0 (tokenFrame ''Hel'') 2 2, WsMessage 0 (tokenFrame ''lo'') 3 3,
           WsMessage 0 (logFrame ''Done'') 4 5] initial)
   = Some ([Message ''1'' User ''https://example.com'', Message ''5'' Assistant ''Done''],
           ''Hello'',
           [Message ''1'' User ''https://example.com'', Message ''5'' Assistant ''Done'',
            Message ''ai-streaming'' Assistant ''Hello''])"
  by code_simp

text \<open>
  \<^bold>\<open>C2\<close>, as stated: after a \<open>file_create\<close> that sets the content of a path to \<open>C\<close>, a
  \<open>file_update\<close> on that path without \<open>old_content\<close> leaves \<open>priorContent = C\<close>.
  It fails: after \<open>file_create index.html "<a>"\<close> and \<open>file_update index.html "<b>"\<close>
  without \<open>old_content\<close>, the record exists and its \<open>oldContent\<close> is unset.
\<close>

theorem C2_counterexample:
  "map_option (\<lambda>st. map_option oldContent (Map_get (files st) ''index.html''))
     (run [InputChange ''https://example.com'', InitialSubmit 1 1, WsOpen 0,
           WsMessage 0 (fileCreate ''index.html'' ''<a>'') 2 2,
           WsMessage 0 (fileUpdate ''index.html'' ''<b>'' None) 3 3] initial)
   = Some (Some None)"
  by code_simp

text \<open>
  \<^bold>\<open>C2\<close>, amended. After a \<open>file_update\<close> on a path, the record of the path has the
  update's content, and its \<open>oldContent\<close> is the update's \<open>old_content\<close>: that value when
  the update carries one, unset when it carries none. It is a \<open>file_create\<close> that records
  as \<open>oldContent\<close> the content the store held for the path immediately before (unset
  when the path is new).
\<close>

theorem C2_update_records_explicit_old_content:
  "Map_get (files (deliver c (fileUpdate p new old) t1 t2 st)) p
     = Some \<lparr>path = p, content = new, oldContent = old\<rparr> \<and>
   Map_get (files (deliver c (fileCreate p new) t1 t2 st)) p
     = Some \<lparr>path = p, content = new, oldContent = map_option content (Map_get (files st) p)\<rparr>"
  by (simp add: deliver_def onmessage_def fileUpdate_def fileCreate_def noData_def Map_get_Map_set Let_def)

text \<open>
  \<^bold>\<open>C3\<close>. The focused path should be set by the first file event of a session and never
  be changed by a later file event.
  The code does not do so. The test \<open>!selectedFile\<close> reads the \<open>selectedFile\<close> that
  \<open>handleClone\<close> captured, which is empty, so every file event moves the focus to its
  own path: after \<open>file_create index.html\<close> and \<open>file_create style.css\<close> the focus is on
  \<open>style.css\<close>.
\<close>

theorem C3_focus_follows_latest_file_event:
  "map_option selectedFile
     (run [InputChange ''https://example.com'', InitialSubmit 1 1, WsOpen 0,
           WsMessage 0 (fileCreate ''index.html'' ''<a>'') 2 2,
           WsMessage 0 (fileCreate ''style.css'' ''b {}'') 3 3] initial)
   = Some ''style.css''"
  by code_simp

text \<open>
  \<^bold>\<open>C4\<close>. When the connection closes while the pending stream text is not empty, the
  text should be flushed into the timeline as one assistant turn and the buffer cleared.
  The code does not do so. \<open>onclose\<close> tests the captured \<open>aiResponse\<close>, which is empty:
  after \<open>ai_token "Hel"\<close> and the close event the socket is closed, the timeline holds
  only the user's turn, and \<open>"Hel"\<close> is still pending.
\<close>

theorem C4_close_leaves_pending_text:
  "map_option (\<lambda>st. (map readyState (sockets st), messages st, aiResponse st))
     (run [InputChange ''https://example.com'', InitialSubmit 1 1, WsOpen 0,
           WsMessage 0 (tokenFrame ''Hel'') 2 2, WsClose 0 3] initial)
   = Some ([CLOSED], [Message ''1'' User ''https://example.com''], ''Hel'')"
  by code_simp

text \<open>
  \<^bold>\<open>C5\<close>. A frame that cannot be parsed as JSON, or whose \<open>event\<close> is not one of the five
  kinds the handler knows, is dropped: handling it on an open socket changes nothing of
  the state (timeline, file store, pending text, flags, sockets), and the session goes on
  as if the frame had not come.
\<close>

theorem C5_undecodable_frame_dropped:
  assumes "fr = Unparsable \<or>
           (\<exists>ev d. fr = Parsed ev d \<and>
                    ev \<notin> {''log'', ''ai_token'', ''file_create'', ''file_update'', ''status''})"
    and "i < length (sockets st)" and "readyState (sockets st ! i) = OPEN"
  shows "step (WsMessage i fr t1 t2) st = Some st \<and>
         run (WsMessage i fr t1 t2 # evs) st = run evs st"
  using assms by (auto simp: deliver_def onmessage_def)

theorem C5_witness:
  "step (WsMessage 0 Unparsable 2 2) buildingState = Some buildingState \<and>
   step (WsMessage 0 (Parsed ''ping'' noData) 2 2) buildingState = Some buildingState"
proof -
  have l: "0 < length (sockets buildingState)"
    and o: "readyState (sockets buildingState ! 0) = OPEN"
    by (simp_all add: buildingState_def)
  have a: "Unparsable = Unparsable \<or>
           (\<exists>ev d. Unparsable = Parsed ev d \<and>
                    ev \<notin> {''log'', ''ai_token'', ''file_create'', ''file_update'', ''status''})"
    by simp
  have b: "Parsed ''ping'' noData = Unparsable \<or>
           (\<exists>ev d. Parsed ''ping'' noData = Parsed ev d \<and>
                    ev \<notin> {''log'', ''ai_token'', ''file_create'', ''file_update'', ''status''})"
    by simp
  from C5_undecodable_frame_dropped [OF a l o, of 2 2 "[]"]
       C5_undecodable_frame_dropped [OF b l o, of 2 2 "[]"]
  show ?thesis by blast
qed

text \<open>
  \<^bold>\<open>C6\<close>, as stated: a modification submit sends the frame if and only if a connection
  exists and is open. It fails: with the connection open and the input made of blanks
  only, the submit sends nothing; the socket has sent the start frame and no more.
\<close>

theorem C6_counterexample:
  "map_option (\<lambda>st. (websocketRef st, map readyState (sockets st), map sent (sockets st)))
     (run [InputChange ''https://example.com'', InitialSubmit 1 1, WsOpen 0,
           InputChange ''   '', ModificationSubmit 2] initial)
   = Some (Some 0, [OPEN], [[Start ''https://example.com'']])"
  by code_simp

text \<open>
  \<^bold>\<open>C6\<close>, amended. A modification submit sends \<open>{type: "modification", prompt}\<close> if and
  only if the input has a character that is not white space and a connection exists and
  is open; otherwise it changes nothing. With \<open>websocketRef\<close> unset it changes nothing.
  The flag \<open>isLive\<close> plays no part: the submit does the same in \<open>Building\<close> and in
  \<open>Live\<close>.
\<close>

theorem C6_modification_guard:
  "(websocketRef st = None \<longrightarrow> handleModificationSubmit now st = st) \<and>
   (\<forall>i. websocketRef st = Some i \<and> i < length (sockets st) \<longrightarrow>
      (sent (sockets (handleModificationSubmit now st) ! i) = sent (sockets st ! i) @ [Modify (input st)])
        = (trim (input st) \<noteq> [] \<and> readyState (sockets st ! i) = OPEN) \<and>
      (trim (input st) = [] \<or> readyState (sockets st ! i) \<noteq> OPEN
         \<longrightarrow> handleModificationSubmit now st = st)) \<and>
   handleModificationSubmit now (st\<lparr>isLive := b\<rparr>) = (handleModificationSubmit now st)\<lparr>isLive := b\<rparr>"
  by (auto simp: handleModificationSubmit_def ws_send_def split: option.splits)

theorem C6_witness:
  "sent (sockets (handleModificationSubmit 2 (buildingState\<lparr>input := ''make the header blue''\<rparr>)) ! 0)
     = [Start ''https://example.com'', Modify ''make the header blue''] \<and>
   handleModificationSubmit 2 (buildingState\<lparr>input := ''   ''\<rparr>) = buildingState\<lparr>input := ''   ''\<rparr>"
proof -
  let ?s = "buildingState\<lparr>input := ''make the header blue''\<rparr>"
  let ?b = "buildingState\<lparr>input := ''   ''\<rparr>"
  have r: "websocketRef ?s = Some 0 \<and> 0 < length (sockets ?s)"
    and r': "websocketRef ?b = Some 0 \<and> 0 < length (sockets ?b)"
    and o: "readyState (sockets ?s ! 0) = OPEN"
    and s: "sent (sockets ?s ! 0) = [Start ''https://example.com'']"
    and i: "input ?s = ''make the header blue''" and i': "input ?b = ''   ''"
    by (simp_all add: buildingState_def)
  have t: "trim ''make the header blue'' \<noteq> []" and t': "trim ''   '' = []"
    by code_simp+
  from C6_modification_guard [of ?s 2] r
  have "(sent (sockets (handleModificationSubmit 2 ?s) ! 0) = sent (sockets ?s ! 0) @ [Modify (input ?s)])
        = (trim (input ?s) \<noteq> [] \<and> readyState (sockets ?s ! 0) = OPEN)"
    by blast
  with o s t have 1: "sent (sockets (handleModificationSubmit 2 ?s) ! 0)
     = [Start ''https://example.com'', Modify ''make the header blue'']"
    unfolding i by simp
  from C6_modification_guard [of ?b 2] r'
  have "trim (input ?b) = [] \<or> readyState (sockets ?b ! 0) \<noteq> OPEN
         \<longrightarrow> handleModificationSubmit 2 ?b = ?b"
    by blast
  with t' have 2: "handleModificationSubmit 2 ?b = ?b" unfolding i' by simp
  from 1 2 show ?thesis by blast
qed

text \<open>
  \<^bold>\<open>C7\<close>. After \<open>handleReset\<close>, run in any state a session can reach, the timeline is
  empty, the file store is empty, the pending text is empty, no file is focused, the
  session is \<open>Idle\<close>, \<open>websocketRef\<close> is unset and no socket is open or connecting any
  more. The handler is one step of the session: no state in between is visible.
\<close>

theorem C7_reset_clears_everything:
  assumes "run evs initial = Some st"
  shows "messages (handleReset st) = [] \<and> files (handleReset st) = [] \<and>
         aiResponse (handleReset st) = [] \<and> selectedFile (handleReset st) = [] \<and>
         sessionState (handleReset st) = Idle \<and> isLive (handleReset st) = False \<and>
         websocketRef (handleReset st) = None \<and>
         list_all closing (sockets (handleReset st))"
proof -
  have inv: "session_inv st" using assms by (rule inv_reachable)
  have "list_all closing (sockets (handleReset st))"
    using inv
    by (auto simp: session_inv_def handleReset_def ws_close_def list_all_length nth_list_update closing_def
        split: option.splits)
  then show ?thesis
    by (simp add: handleReset_def sessionState_def Let_def split: option.splits)
qed

theorem C7_witness:
  "run [InputChange ''https://example.com'', InitialSubmit 1 1, WsOpen 0] initial = Some buildingState \<and>
   messages (handleReset buildingState) = [] \<and> files (handleReset buildingState) = [] \<and>
   aiResponse (handleReset buildingState) = [] \<and> selectedFile (handleReset buildingState) = [] \<and>
   sessionState (handleReset buildingState) = Idle \<and> websocketRef (handleReset buildingState) = None \<and>
   map readyState (sockets (handleReset buildingState)) = [CLOSING]"
proof -
  have c: "map readyState (sockets (handleReset buildingState)) = [CLOSING]"
    by (simp add: buildingState_def handleReset_def ws_close_def)
  from C7_reset_clears_everything [OF buildingState_reached] buildingState_reached c
  show ?thesis by blast
qed

text \<open>
  \<^bold>\<open>C8\<close>. The tree projector should make every part of a path but the last a folder
  node and the last a file node, reusing a node of the same name at the same level.
  The code does not do so when a path continues below the name of a file: \<open>find\<close> looks
  for the name alone, the file node found for the part \<open>a\<close> of \<open>a/b\<close> has no \<open>children\<close>
  (the source asserts \<open>existing.children!\<close>), and the projection throws. After
  \<open>file_create a\<close> and \<open>file_create a/b\<close> the store holds both paths and the tree
  cannot be built.
\<close>

theorem C8_file_then_folder_throws:
  "map_option (\<lambda>st. (Map_keys (files st), fileTree (files st)))
     (run [InputChange ''https://example.com'', InitialSubmit 1 1, WsOpen 0,
           WsMessage 0 (fileCreate ''a'' ''x'') 2 2,
           WsMessage 0 (fileCreate ''a/b'' ''y'') 3 3] initial)
   = Some ([''a'', ''a/b''], Inl TypeError)"
  by code_simp

text \<open>
  \<^bold>\<open>C9\<close>. All turn identifiers of a timeline should be distinct.
  The code does not ensure it: an identifier is the clock reading \<open>Date.now()\<close> in
  milliseconds, and two turns appended within one millisecond share it. A submission
  without a URL appends the user's turn and the assistant's notice one after the other;
  with both readings equal to 5, both turns have the identifier \<open>"5"\<close>.
\<close>

theorem C9_same_millisecond_same_id:
  "map_option (\<lambda>st. map m_id (messages st))
     (run [InputChange ''a portfolio site'', InitialSubmit 5 5] initial)
   = Some [''5'', ''5'']"
  by code_simp

text \<open>
  \<^bold>\<open>C10\<close>. An initial submission always starts a build. When the text contains no
  http(s) URL, the start frame sent once the connection opens carries the default URL,
  and the timeline gains the assistant turn saying that no URL was detected (after the
  user's turn, which is added when the text is not blank). When the text contains an
  http(s) URL, the start frame carries the first one: the URL at the least offset that
  has one.
\<close>

theorem C10_initial_submit_url:
  "isBuilding (handleInitialSubmit t1 t2 st) \<and>
   ((\<forall>k u. \<not> urlAt (input st) k u) \<longrightarrow>
      startFrames (handleInitialSubmit t1 t2 st) = Some [Start defaultUrl] \<and>
      messages (handleInitialSubmit t1 t2 st) =
        messages st @ (if trim (input st) \<noteq> [] then [Message (toString t1) User (input st)] else [])
          @ [Message (toString t2) Assistant noUrlText]) \<and>
   (\<forall>k u. urlAt (input st) k u \<and> (\<forall>j<k. \<forall>v. \<not> urlAt (input st) j v) \<longrightarrow>
      startFrames (handleInitialSubmit t1 t2 st) = Some [Start u] \<and>
      messages (handleInitialSubmit t1 t2 st) =
        messages st @ (if trim (input st) \<noteq> [] then [Message (toString t1) User (input st)] else []))"
proof (intro conjI impI allI)
  show "isBuilding (handleInitialSubmit t1 t2 st)"
    by (cases "urlMatch (input st)") (simp_all add: submit_url submit_default)
next
  assume "\<forall>k u. \<not> urlAt (input st) k u"
  then have n: "urlMatch (input st) = None"
    by (simp add: urlMatch_None_iff urlAt_matchAt)
  show "startFrames (handleInitialSubmit t1 t2 st) = Some [Start defaultUrl]"
    by (rule submit_default(1)[OF n])
  show "messages (handleInitialSubmit t1 t2 st) =
        messages st @ (if trim (input st) \<noteq> [] then [Message (toString t1) User (input st)] else [])
          @ [Message (toString t2) Assistant noUrlText]"
    by (rule submit_default(2)[OF n])
next
  fix k u
  assume a: "urlAt (input st) k u \<and> (\<forall>j<k. \<forall>v. \<not> urlAt (input st) j v)"
  then have "matchAt (drop k (input st)) = Some u" "\<forall>j<k. matchAt (drop j (input st)) = None"
    by (simp_all add: urlAt_matchAt)
  then have s: "urlMatch (input st) = Some u" by (rule leftmost_urlMatch)
  show "startFrames (handleInitialSubmit t1 t2 st) = Some [Start u]"
    by (rule submit_url(1)[OF s])
  show "messages (handleInitialSubmit t1 t2 st) =
        messages st @ (if trim (input st) \<noteq> [] then [Message (toString t1) User (input st)] else [])"
    by (rule submit_url(2)[OF s])
qed

theorem C10_witness:
  "startFrames (handleInitialSubmit 1 2 (initial\<lparr>input := ''clone https://example.com now''\<rparr>))
     = Some [Start ''https://example.com''] \<and>
   startFrames (handleInitialSubmit 1 2 (initial\<lparr>input := ''a portfolio site''\<rparr>))
     = Some [Start defaultUrl] \<and>
   messages (handleInitialSubmit 1 2 (initial\<lparr>input := ''a portfolio site''\<rparr>))
     = [Message ''1'' User ''a portfolio site'', Message ''2'' Assistant noUrlText]"
proof -
  let ?s = "initial\<lparr>input := ''clone https://example.com now''\<rparr>"
  let ?d = "initial\<lparr>input := ''a portfolio site''\<rparr>"
  have i_s: "input ?s = ''clone https://example.com now''"
    and i_d: "input ?d = ''a portfolio site''" and md: "messages ?d = []"
    by (simp_all add: initial_def)
  have "urlMatch ''clone https://example.com now'' = Some ''https://example.com''"
    by code_simp
  then obtain k where "matchAt (drop k ''clone https://example.com now'') = Some ''https://example.com''"
      "\<forall>j<k. matchAt (drop j ''clone https://example.com now'') = None"
    using urlMatch_Some_leftmost by blast
  then have h: "urlAt (input ?s) k ''https://example.com'' \<and> (\<forall>j<k. \<forall>v. \<not> urlAt (input ?s) j v)"
    unfolding i_s urlAt_matchAt by (metis option.distinct(1))
  have "urlMatch ''a portfolio site'' = None" by code_simp
  then have "\<forall>k. matchAt (drop k ''a portfolio site'') = None"
    using urlMatch_None_iff by blast
  then have n: "\<forall>k u. \<not> urlAt (input ?d) k u"
    unfolding i_d urlAt_matchAt by (metis option.distinct(1))
  have t: "trim ''a portfolio site'' \<noteq> []" by code_simp
  have d1: "toString 1 = ''1''" and d2: "toString 2 = ''2''" by code_simp+
  from C10_initial_submit_url [of 1 2 ?s] h
  have 1: "startFrames (handleInitialSubmit 1 2 ?s) = Some [Start ''https://example.com'']"
    by blast
  from C10_initial_submit_url [of 1 2 ?d] n
  have 2: "startFrames (handleInitialSubmit 1 2 ?d) = Some [Start defaultUrl] \<and>
     messages (handleInitialSubmit 1 2 ?d) =
        messages ?d @ (if trim (input ?d) \<noteq> [] then [Message (toString 1) User (input ?d)] else [])
          @ [Message (toString 2) Assistant noUrlText]"
    by blast
  from 2 have 3: "messages (handleInitialSubmit 1 2 ?d) =
      [Message ''1'' User ''a portfolio site'', Message ''2'' Assistant noUrlText]"
    unfolding i_d md using t d1 d2 by simp
  from 1 2 3 show ?thesis by blast
qed

end
